theory Spec2Isabelle
  imports Complex_Main
begin

section \<open>JavaScript numbers\<close>

text \<open>
  Every number of the program is a JavaScript number. The model keeps the three
  special values of IEEE-754 apart from the finite ones and computes the finite
  ones as real numbers: rounding, overflow to an infinity, underflow to zero and the
  sign of zero (zero stands for \<open>+0\<close>) are not modelled. The operators follow
  ECMAScript on the special values: \<open>NaN\<close> is absorbing, \<open>x / 0\<close> is an infinity of
  the sign of \<open>x\<close>, and \<open>0 / 0\<close>, \<open>0 * Infinity\<close> and \<open>Infinity - Infinity\<close> are
  \<open>NaN\<close>; a comparison with \<open>NaN\<close> is false. A finite result of the model is
  the exact value of the expression that the code evaluates in double precision.
  Where a branch or a special value of the pricer or of a sweep depends on a finite
  computation, the theorem names a range of arguments on which double precision
  decides it in the same way.
\<close>

datatype jsnum = Fin real | PInf | NInf | NaN

instantiation jsnum :: "{plus, uminus, times, divide, ord}"
begin

fun uminus_jsnum :: "jsnum \<Rightarrow> jsnum" where
  "uminus_jsnum (Fin a) = Fin (- a)"
| "uminus_jsnum PInf = NInf"
| "uminus_jsnum NInf = PInf"
| "uminus_jsnum NaN = NaN"

fun plus_jsnum :: "jsnum \<Rightarrow> jsnum \<Rightarrow> jsnum" where
  "plus_jsnum NaN b = NaN"
| "plus_jsnum a NaN = NaN"
| "plus_jsnum (Fin a) (Fin b) = Fin (a + b)"
| "plus_jsnum PInf NInf = NaN"
| "plus_jsnum NInf PInf = NaN"
| "plus_jsnum PInf b = PInf"
| "plus_jsnum NInf b = NInf"
| "plus_jsnum (Fin a) b = b"

fun times_jsnum :: "jsnum \<Rightarrow> jsnum \<Rightarrow> jsnum" where
  "times_jsnum NaN b = NaN"
| "times_jsnum a NaN = NaN"
| "times_jsnum (Fin a) (Fin b) = Fin (a * b)"
| "times_jsnum (Fin a) PInf = (if 0 < a then PInf else if a < 0 then NInf else NaN)"
| "times_jsnum (Fin a) NInf = (if 0 < a then NInf else if a < 0 then PInf else NaN)"
| "times_jsnum PInf (Fin b) = (if 0 < b then PInf else if b < 0 then NInf else NaN)"
| "times_jsnum NInf (Fin b) = (if 0 < b then NInf else if b < 0 then PInf else NaN)"
| "times_jsnum PInf PInf = PInf"
| "times_jsnum PInf NInf = NInf"
| "times_jsnum NInf PInf = NInf"
| "times_jsnum NInf NInf = PInf"

fun divide_jsnum :: "jsnum \<Rightarrow> jsnum \<Rightarrow> jsnum" where
  "divide_jsnum NaN b = NaN"
| "divide_jsnum a NaN = NaN"
| "divide_jsnum (Fin a) (Fin b) =
     (if b \<noteq> 0 then Fin (a / b)
      else if 0 < a then PInf else if a < 0 then NInf else NaN)"
| "divide_jsnum (Fin a) b = Fin 0"
| "divide_jsnum PInf (Fin b) = (if 0 \<le> b then PInf else NInf)"
| "divide_jsnum NInf (Fin b) = (if 0 \<le> b then NInf else PInf)"
| "divide_jsnum a b = NaN"

fun less_eq_jsnum :: "jsnum \<Rightarrow> jsnum \<Rightarrow> bool" where
  "less_eq_jsnum NaN b = False"
| "less_eq_jsnum a NaN = False"
| "less_eq_jsnum (Fin a) (Fin b) = (a \<le> b)"
| "less_eq_jsnum NInf b = True"
| "less_eq_jsnum a PInf = True"
| "less_eq_jsnum a b = False"

fun less_jsnum :: "jsnum \<Rightarrow> jsnum \<Rightarrow> bool" where
  "less_jsnum NaN b = False"
| "less_jsnum a NaN = False"
| "less_jsnum (Fin a) (Fin b) = (a < b)"
| "less_jsnum PInf b = False"
| "less_jsnum a NInf = False"
| "less_jsnum a b = True"

instance ..

end

text \<open>Subtraction adds the negated operand.\<close>

instantiation jsnum :: "{minus, inverse}"
begin

definition minus_jsnum :: "jsnum \<Rightarrow> jsnum \<Rightarrow> jsnum" where
  "minus_jsnum a b = a + (- b)"

definition inverse_jsnum :: "jsnum \<Rightarrow> jsnum" where
  "inverse_jsnum a = Fin 1 div a"

instance ..

end

text \<open>\<open>Number.isFinite\<close>.\<close>

fun isFinite :: "jsnum \<Rightarrow> bool" where
  "isFinite (Fin a) = True"
| "isFinite a = False"

subsection \<open>The functions of \<open>Math\<close> the program calls\<close>

fun Math_max :: "jsnum \<Rightarrow> jsnum \<Rightarrow> jsnum" where
  "Math_max NaN b = NaN"
| "Math_max a NaN = NaN"
| "Math_max (Fin a) (Fin b) = Fin (max a b)"
| "Math_max PInf b = PInf"
| "Math_max a PInf = PInf"
| "Math_max NInf b = b"
| "Math_max a NInf = a"

fun Math_sqrt :: "jsnum \<Rightarrow> jsnum" where
  "Math_sqrt (Fin a) = (if 0 \<le> a then Fin (sqrt a) else NaN)"
| "Math_sqrt PInf = PInf"
| "Math_sqrt a = NaN"

fun Math_log :: "jsnum \<Rightarrow> jsnum" where
  "Math_log (Fin a) = (if 0 < a then Fin (ln a) else if a = 0 then NInf else NaN)"
| "Math_log PInf = PInf"
| "Math_log a = NaN"

fun Math_exp :: "jsnum \<Rightarrow> jsnum" where
  "Math_exp (Fin a) = Fin (exp a)"
| "Math_exp PInf = PInf"
| "Math_exp NInf = Fin 0"
| "Math_exp NaN = NaN"

fun Math_cos :: "jsnum \<Rightarrow> jsnum" where
  "Math_cos (Fin a) = Fin (cos a)"
| "Math_cos a = NaN"

text \<open>\<open>Math.round\<close> rounds to the nearest integer, a half towards \<open>+Infinity\<close>.\<close>

fun Math_round :: "jsnum \<Rightarrow> jsnum" where
  "Math_round (Fin a) = Fin (of_int \<lfloor>a + 1 / 2\<rfloor>)"
| "Math_round a = a"

definition Math_PI :: jsnum where
  "Math_PI = Fin pi"

text \<open>
  The remainder operator \<open>%\<close>: the result has the sign of the dividend, the quotient
  is truncated towards zero.
\<close>

definition trunc :: "real \<Rightarrow> real" where
  "trunc x = (if 0 \<le> x then of_int \<lfloor>x\<rfloor> else of_int \<lceil>x\<rceil>)"

fun js_rem :: "jsnum \<Rightarrow> jsnum \<Rightarrow> jsnum" where
  "js_rem (Fin a) (Fin b) = (if b = 0 then NaN else Fin (a - b * trunc (a / b)))"
| "js_rem (Fin a) PInf = Fin a"
| "js_rem (Fin a) NInf = Fin a"
| "js_rem a b = NaN"

subsection \<open>The error function\<close>

text \<open>
  Modelled from the spec: \<open>erf\<close> is imported from the package \<open>mathjs\<close>, whose code is
  not part of the repository. The spec (4.1) takes it as the reference error function,
  which saturates for large arguments. On the reals this is
  \<open>erf x = 2 / sqrt pi * gauss_int x\<close>, where \<open>gauss_int x\<close> is the integral of
  \<open>exp (- t\<^sup>2)\<close> from \<open>0\<close> to \<open>x\<close>, given by its power series.
\<close>

definition gauss_int :: "real \<Rightarrow> real" where
  "gauss_int x = (\<Sum>k. (- 1) ^ k * x ^ (2 * k + 1) / (fact k * real (2 * k + 1)))"

definition erf_real :: "real \<Rightarrow> real" where
  "erf_real x = 2 / sqrt pi * gauss_int x"

text \<open>
  Modelled from the spec: \<open>erf\<close> on JavaScript numbers, with the values \<open>1\<close> and \<open>-1\<close>
  at the infinities and \<open>NaN\<close> at \<open>NaN\<close>.
\<close>

fun erf :: "jsnum \<Rightarrow> jsnum" where
  "erf (Fin a) = Fin (erf_real a)"
| "erf PInf = Fin 1"
| "erf NInf = Fin (- 1)"
| "erf NaN = NaN"

section \<open>The Black-Scholes pricer\<close>

text \<open>The cumulative distribution function of the standard normal distribution.\<close>

definition cdf :: "jsnum \<Rightarrow> jsnum" where
  "cdf x = Fin (1 / 2) * (Fin 1 + erf (x / Math_sqrt (Fin 2)))"

definition calculateD1 :: "jsnum \<Rightarrow> jsnum \<Rightarrow> jsnum \<Rightarrow> jsnum \<Rightarrow> jsnum \<Rightarrow> jsnum" where
  "calculateD1 S K r T sigma =
     (Math_log (S / K) + (r + sigma * sigma / Fin 2) * T) / (sigma * Math_sqrt T)"

definition calculateD2 :: "jsnum \<Rightarrow> jsnum \<Rightarrow> jsnum \<Rightarrow> jsnum" where
  "calculateD2 d1 sigma T = d1 - sigma * Math_sqrt T"

text \<open>
  The option type is a string; the code tests it against \<open>'call'\<close> and takes every
  other value as a put.
\<close>

definition calculateOptionPrice ::
  "string \<Rightarrow> jsnum \<Rightarrow> jsnum \<Rightarrow> jsnum \<Rightarrow> jsnum \<Rightarrow> jsnum \<Rightarrow> jsnum" where
  "calculateOptionPrice ty S K r T sigma =
     (if T \<le> Fin 0 then Math_max (Fin 0) (if ty = ''call'' then S - K else K - S)
      else
        let d1 = calculateD1 S K r T sigma;
            d2 = calculateD2 d1 sigma T
        in if ty = ''call''
           then S * cdf d1 - K * Math_exp (- r * T) * cdf d2
           else K * Math_exp (- r * T) * cdf (- d2) - S * cdf (- d1))"

section \<open>The Greeks\<close>

record greeks =
  delta :: jsnum
  gamma :: jsnum
  theta :: jsnum
  vega :: jsnum
  rho :: jsnum

text \<open>The density of the standard normal distribution, local to \<open>calculateGreeks\<close>.\<close>

definition pdf :: "jsnum \<Rightarrow> jsnum" where
  "pdf x = Math_exp (- Fin (1 / 2) * x * x) / Math_sqrt (Fin 2 * Math_PI)"

definition calculateGreeks ::
  "string \<Rightarrow> jsnum \<Rightarrow> jsnum \<Rightarrow> jsnum \<Rightarrow> jsnum \<Rightarrow> jsnum \<Rightarrow> greeks" where
  "calculateGreeks ty S K r T sigma =
     (if T \<le> Fin 0 then
        let intrinsicValue = Math_max (Fin 0) (if ty = ''call'' then S - K else K - S)
        in \<lparr> delta = (if Fin 0 < intrinsicValue
                       then (if ty = ''call'' then Fin 1 else Fin (- 1)) else Fin 0),
             gamma = Fin 0, theta = Fin 0, vega = Fin 0, rho = Fin 0 \<rparr>
      else
        let d1 = calculateD1 S K r T sigma;
            d2 = calculateD2 d1 sigma T;
            delta = (if ty = ''call'' then cdf d1 else cdf d1 - Fin 1);
            gamma = pdf d1 / (S * sigma * Math_sqrt T);
            theta = (if ty = ''call''
                     then - S * pdf d1 * sigma / (Fin 2 * Math_sqrt T)
                          - r * K * Math_exp (- r * T) * cdf d2
                     else - S * pdf d1 * sigma / (Fin 2 * Math_sqrt T)
                          + r * K * Math_exp (- r * T) * cdf (- d2));
            vega = S * Math_sqrt T * pdf d1 / Fin 100;
            rho = (if ty = ''call''
                   then K * T * Math_exp (- r * T) * cdf d2 / Fin 100
                   else - K * T * Math_exp (- r * T) * cdf (- d2) / Fin 100)
        in \<lparr> delta = delta, gamma = gamma, theta = theta / Fin 365, vega = vega, rho = rho \<rparr>)"

text \<open>
  \<open>calculateCDF\<close> of the normal-distribution panel: the same function for a mean and a
  standard deviation.
\<close>

definition calculateCDF :: "jsnum \<Rightarrow> jsnum \<Rightarrow> jsnum \<Rightarrow> jsnum" where
  "calculateCDF x mean stdDev =
     Fin (1 / 2) * (Fin 1 + erf ((x - mean) / (stdDev * Math_sqrt (Fin 2))))"

section \<open>The chart data generators\<close>

text \<open>
  The objects the generators push. Records that share a field name are told apart by
  the qualified name (\<open>priceSeries.volatility\<close>).
\<close>

record pricePoint =
  underlyingPrice :: jsnum
  optionPrice :: jsnum
  volatility :: jsnum

record priceSeries =
  volatility :: jsnum
  data :: "pricePoint list"

record greeksPoint =
  volatility :: jsnum
  delta :: jsnum
  gamma :: jsnum
  theta :: jsnum
  vega :: jsnum
  rho :: jsnum

record deltaPoint =
  underlyingPrice :: jsnum
  delta :: jsnum
  volatility :: jsnum

record deltaSeries =
  volatility :: jsnum
  data :: "deltaPoint list"

text \<open>
  The loop over the prices of the x-axis,
  \<^verbatim>\<open>for (let price = minPrice; price <= maxPrice; price += priceStep) prices.push(price)\<close>.
  It accumulates the step and does not return when the step is not positive and the
  range is not empty: not returning is the value \<open>None\<close>.
\<close>

partial_function (option) priceLoop ::
  "jsnum \<Rightarrow> jsnum \<Rightarrow> jsnum \<Rightarrow> jsnum list \<Rightarrow> jsnum list option" where
  "priceLoop price maxPrice priceStep prices =
     (if price \<le> maxPrice
      then priceLoop (price + priceStep) maxPrice priceStep (prices @ [price])
      else Some prices)"

text \<open>
  The loop over the volatilities,
  \<^verbatim>\<open>for (let vol = minVol; vol <= maxVol + 0.0001; vol += volStep)\<close>, which the three
  sweeps share word for word: each rounds \<open>vol\<close> to two decimals and pushes one object
  built from the rounded value, here the function \<open>body\<close>.
\<close>

partial_function (option) volLoop ::
  "(jsnum \<Rightarrow> 'a) \<Rightarrow> jsnum \<Rightarrow> jsnum \<Rightarrow> jsnum \<Rightarrow> 'a list \<Rightarrow> 'a list option" where
  "volLoop body vol maxVol volStep allData =
     (if vol \<le> maxVol + Fin (1 / 10000)
      then let roundedVol = Math_round (vol * Fin 100) / Fin 100
           in volLoop body (vol + volStep) maxVol volStep (allData @ [body roundedVol])
      else Some allData)"

text \<open>The default values of the parameters are left to the caller.\<close>

definition generateVolatilityChartData ::
  "string \<Rightarrow> jsnum \<Rightarrow> jsnum \<Rightarrow> jsnum \<Rightarrow> jsnum \<Rightarrow> jsnum \<Rightarrow> jsnum \<Rightarrow> jsnum \<Rightarrow> jsnum \<Rightarrow> jsnum
    \<Rightarrow> priceSeries list option" where
  "generateVolatilityChartData ty S K r T minVol maxVol volStep rng points =
     (let minPrice = K * (Fin 1 - rng);
          maxPrice = K * (Fin 1 + rng);
          priceStep = (maxPrice - minPrice) / (points - Fin 1)
      in case priceLoop minPrice maxPrice priceStep [] of
           None \<Rightarrow> None
         | Some prices \<Rightarrow>
             volLoop
               (\<lambda>roundedVol.
                  \<lparr> priceSeries.volatility = roundedVol,
                    data = map (\<lambda>price.
                      \<lparr> pricePoint.underlyingPrice = price,
                        optionPrice = calculateOptionPrice ty price K r T roundedVol,
                        volatility = roundedVol \<rparr>) prices \<rparr>)
               minVol maxVol volStep [])"

definition generateDeltaVolatilityData ::
  "string \<Rightarrow> jsnum \<Rightarrow> jsnum \<Rightarrow> jsnum \<Rightarrow> jsnum \<Rightarrow> jsnum \<Rightarrow> jsnum \<Rightarrow> greeksPoint list option" where
  "generateDeltaVolatilityData ty K r T minVol maxVol volStep =
     volLoop
       (\<lambda>roundedVol.
          let greeks = calculateGreeks ty K K r T roundedVol
          in \<lparr> greeksPoint.volatility = roundedVol * Fin 100,
               delta = greeks.delta greeks,
               gamma = greeks.gamma greeks,
               theta = greeks.theta greeks,
               vega = greeks.vega greeks,
               rho = greeks.rho greeks \<rparr>)
       minVol maxVol volStep []"

definition generateDeltaUnderlyingData ::
  "string \<Rightarrow> jsnum \<Rightarrow> jsnum \<Rightarrow> jsnum \<Rightarrow> jsnum \<Rightarrow> jsnum \<Rightarrow> jsnum \<Rightarrow> jsnum \<Rightarrow> jsnum \<Rightarrow> jsnum
    \<Rightarrow> deltaSeries list option" where
  "generateDeltaUnderlyingData ty S K r T minVol maxVol volStep rng points =
     (let minPrice = K * (Fin 1 - rng);
          maxPrice = K * (Fin 1 + rng);
          priceStep = (maxPrice - minPrice) / (points - Fin 1)
      in case priceLoop minPrice maxPrice priceStep [] of
           None \<Rightarrow> None
         | Some prices \<Rightarrow>
             volLoop
               (\<lambda>roundedVol.
                  \<lparr> deltaSeries.volatility = roundedVol,
                    data = map (\<lambda>price.
                      let greeks = calculateGreeks ty price K r T roundedVol
                      in \<lparr> deltaPoint.underlyingPrice = price,
                           delta = greeks.delta greeks,
                           volatility = roundedVol \<rparr>) prices \<rparr>)
               minVol maxVol volStep [])"

section \<open>The Brownian motion simulator\<close>

text \<open>
  A point of a path. The field \<open>value\<close> of the source is \<open>value'\<close> here, \<open>value\<close>
  being a keyword of Isabelle.
\<close>

record pathPoint =
  time :: jsnum
  value' :: jsnum

text \<open>
  The closure \<open>random\<close> of \<open>generatePath\<close> updates the variable \<open>seed\<close> it captures; the
  model passes the seed in and returns the sample with the new seed.
\<close>

definition random :: "jsnum \<Rightarrow> jsnum \<times> jsnum" where
  "random seed0 =
     (let seed = js_rem (seed0 * Fin 9301 + Fin 49297) (Fin 233280);
          rnd = seed / Fin 233280;
          u1 = rnd;
          u2 = js_rem (seed / Fin 233280 + Fin (1 / 10)) (Fin 1);
          z = Math_sqrt (Fin (- 2) * Math_log u1) * Math_cos (Fin 2 * Math_PI * u2)
      in (z, seed))"

text \<open>
  The loop \<^verbatim>\<open>for (let t = 1; t <= timeSteps; t++)\<close> with its state: the counter, the
  current value, the seed and the path built so far. It does not return when
  \<open>timeSteps\<close> is \<open>Infinity\<close>.
\<close>

partial_function (option) pathLoop ::
  "jsnum \<Rightarrow> jsnum \<Rightarrow> jsnum \<Rightarrow> jsnum \<Rightarrow> jsnum \<Rightarrow> jsnum \<Rightarrow> jsnum \<Rightarrow> jsnum \<Rightarrow> pathPoint list
    \<Rightarrow> pathPoint list option" where
  "pathLoop drift diffusion dt sqrtDt timeSteps t currentValue seed path =
     (if t \<le> timeSteps
      then let time = t * dt;
               (z, seed1) = random seed;
               randomComponent = diffusion * currentValue * sqrtDt * z;
               driftComponent = drift * currentValue * dt;
               currentValue1 = currentValue + driftComponent + randomComponent
           in pathLoop drift diffusion dt sqrtDt timeSteps (t + Fin 1) currentValue1 seed1
                (path @ [\<lparr> time = time, value' = currentValue1 \<rparr>])
      else Some path)"

definition generatePath ::
  "jsnum \<Rightarrow> jsnum \<Rightarrow> jsnum \<Rightarrow> jsnum \<Rightarrow> jsnum \<Rightarrow> jsnum \<Rightarrow> pathPoint list option" where
  "generatePath drift diffusion timeHorizon timeSteps initialValue seed =
     (let dt = timeHorizon / timeSteps;
          sqrtDt = Math_sqrt dt
      in pathLoop drift diffusion dt sqrtDt timeSteps (Fin 1) initialValue seed
           [\<lparr> time = Fin 0, value' = initialValue \<rparr>])"

section \<open>Auxiliary definitions\<close>

text \<open>
  The constants and functions below are not part of the program; the proofs use them.
  First the coefficients of \<open>gauss_int\<close> as a power series in \<open>x\<close>, and its supremum,
  the integral of \<open>exp (- t\<^sup>2)\<close> over the positive half line.
\<close>

definition gauss_coeff :: "nat \<Rightarrow> real" where
  "gauss_coeff n =
     (if odd n then (- 1) ^ ((n - 1) div 2) / (fact ((n - 1) div 2) * real n) else 0)"

definition gauss_total :: real where
  "gauss_total = (SUP x. gauss_int x)"

text \<open>
  The integral of \<open>sin t ^ n\<close> from \<open>0\<close> to \<open>x\<close>, by the reduction formula, and its
  value at \<open>pi / 2\<close>.
\<close>

fun wallis_int :: "nat \<Rightarrow> real \<Rightarrow> real" where
  "wallis_int 0 x = x"
| "wallis_int (Suc 0) x = 1 - cos x"
| "wallis_int (Suc (Suc n)) x =
     - (sin x ^ Suc n * cos x) / real (n + 2) + real (n + 1) / real (n + 2) * wallis_int n x"

definition wallis :: "nat \<Rightarrow> real" where
  "wallis n = wallis_int n (pi / 2)"

text \<open>Rounding to two decimals, \<^verbatim>\<open>Math.round(vol * 100) / 100\<close>, on the reals.\<close>

definition round2 :: "real \<Rightarrow> real" where
  "round2 x = of_int \<lfloor>x * 100 + 1 / 2\<rfloor> / 100"

text \<open>
  The value of the distribution function \<open>cdf\<close> at a finite number.
\<close>

definition cdf_real :: "real \<Rightarrow> real" where
  "cdf_real x = 1 / 2 * (1 + erf_real (x / sqrt 2))"

section \<open>The error function on the reals\<close>

subsection \<open>The antiderivative of the Gaussian\<close>

lemma gauss_term_summable:
  "summable (\<lambda>k. (- 1) ^ k * x ^ (2 * k + 1) / (fact k * real (2 * k + 1)))"
proof (rule summable_comparison_test')
  show "summable (\<lambda>k. \<bar>x\<bar> * ((x\<^sup>2) ^ k /\<^sub>R fact k))"
    by (intro summable_mult summable_exp_generic)
  fix k :: nat
  have "norm ((- 1) ^ k * x ^ (2 * k + 1) / (fact k * real (2 * k + 1)))
        = \<bar>x\<bar> * (x\<^sup>2) ^ k / (fact k * real (2 * k + 1))"
    by (simp add: abs_mult power_abs power_mult power_even_abs)
  also have "\<dots> \<le> \<bar>x\<bar> * (x\<^sup>2) ^ k / (fact k * 1)"
    by (intro divide_left_mono mult_left_mono mult_nonneg_nonneg) auto
  also have "\<dots> = \<bar>x\<bar> * ((x\<^sup>2) ^ k /\<^sub>R fact k)"
    by (simp add: field_simps)
  finally show "norm ((- 1) ^ k * x ^ (2 * k + 1) / (fact k * real (2 * k + 1)))
        \<le> \<bar>x\<bar> * ((x\<^sup>2) ^ k /\<^sub>R fact k)" .
qed

lemma gauss_coeff_sums:
  "(\<lambda>n. gauss_coeff n * x ^ n) sums gauss_int x"
proof -
  let ?g = "\<lambda>k. (- 1) ^ k * x ^ (2 * k + 1) / (fact k * real (2 * k + 1))"
  have "?g sums gauss_int x"
    unfolding gauss_int_def by (rule summable_sums [OF gauss_term_summable])
  then have "(\<lambda>n. if even n then 0 else ?g ((n - 1) div 2)) sums gauss_int x"
    by (rule sums_if')
  moreover have "(\<lambda>n. if even n then 0 else ?g ((n - 1) div 2)) = (\<lambda>n. gauss_coeff n * x ^ n)"
  proof
    fix n :: nat
    show "(if even n then 0 else ?g ((n - 1) div 2)) = gauss_coeff n * x ^ n"
    proof (cases "even n")
      case True
      then show ?thesis by (simp add: gauss_coeff_def)
    next
      case False
      then obtain k where k: "n = 2 * k + 1" by (auto elim: oddE)
      show ?thesis by (simp add: k gauss_coeff_def)
    qed
  qed
  ultimately show ?thesis by simp
qed

lemma diffs_gauss_coeff_sums:
  "(\<lambda>n. diffs gauss_coeff n * x ^ n) sums exp (- (x\<^sup>2))"
proof -
  let ?f = "\<lambda>k. (- (x\<^sup>2)) ^ k /\<^sub>R fact k"
  have "?f sums exp (- (x\<^sup>2))" by (rule exp_converges)
  from sums_if [OF sums_zero this]
  have "(\<lambda>n. if even n then ?f (n div 2) else 0) sums exp (- (x\<^sup>2))" by simp
  moreover have "(\<lambda>n. if even n then ?f (n div 2) else 0) = (\<lambda>n. diffs gauss_coeff n * x ^ n)"
  proof
    fix n :: nat
    show "(if even n then ?f (n div 2) else 0) = diffs gauss_coeff n * x ^ n"
    proof (cases "even n")
      case True
      then obtain k where k: "n = 2 * k" by (auto elim: evenE)
      show ?thesis
        by (simp add: k diffs_def gauss_coeff_def power_mult power_minus' divide_inverse power_mult_distrib)
    next
      case False
      then show ?thesis by (simp add: diffs_def gauss_coeff_def)
    qed
  qed
  ultimately show ?thesis by simp
qed

lemma DERIV_gauss_int: "DERIV gauss_int x :> exp (- (x\<^sup>2))"
proof -
  have summ: "\<And>y. summable (\<lambda>n. gauss_coeff n * y ^ n)"
    using gauss_coeff_sums by (rule sums_summable)
  have "((\<lambda>x. \<Sum>n. gauss_coeff n * x ^ n) has_field_derivative (\<Sum>n. diffs gauss_coeff n * x ^ n)) (at x)"
    by (rule termdiffs_strong_converges_everywhere [OF summ])
  moreover have "(\<lambda>x. \<Sum>n. gauss_coeff n * x ^ n) = gauss_int"
    using gauss_coeff_sums by (auto simp: sums_iff)
  moreover have "(\<Sum>n. diffs gauss_coeff n * x ^ n) = exp (- (x\<^sup>2))"
    using diffs_gauss_coeff_sums by (auto simp: sums_iff)
  ultimately show ?thesis by simp
qed

lemma gauss_int_zero: "gauss_int 0 = 0"
  by (simp add: gauss_int_def)

lemma gauss_int_odd: "gauss_int (- x) = - gauss_int x"
proof -
  have "(\<lambda>k. (- 1) ^ k * (- x) ^ (2 * k + 1) / (fact k * real (2 * k + 1)))
        = (\<lambda>k. - ((- 1) ^ k * x ^ (2 * k + 1) / (fact k * real (2 * k + 1))))"
    by (rule ext) simp
  then have "gauss_int (- x)
      = (\<Sum>k. - ((- 1) ^ k * x ^ (2 * k + 1) / (fact k * real (2 * k + 1))))"
    unfolding gauss_int_def by (rule arg_cong)
  also have "\<dots> = - (\<Sum>k. (- 1) ^ k * x ^ (2 * k + 1) / (fact k * real (2 * k + 1)))"
    by (rule suminf_minus [OF gauss_term_summable])
  finally show ?thesis unfolding gauss_int_def .
qed

lemma gauss_int_mono: "x \<le> y \<Longrightarrow> gauss_int x \<le> gauss_int y"
  by (rule DERIV_nonneg_imp_nondecreasing [of x y gauss_int])
     (auto intro!: exI [of _ "exp (- (_\<^sup>2))"] DERIV_gauss_int)

lemma gauss_int_strict_mono: "x < y \<Longrightarrow> gauss_int x < gauss_int y"
  by (rule DERIV_pos_imp_increasing [of x y gauss_int])
     (auto intro!: exI [of _ "exp (- (_\<^sup>2))"] DERIV_gauss_int)

lemma gauss_int_bound: "gauss_int x \<le> gauss_int 1 + exp (- 1)"
proof (cases "x \<le> 1")
  case True
  then have "gauss_int x \<le> gauss_int 1" by (rule gauss_int_mono)
  then show ?thesis using exp_gt_zero [of "- 1 :: real"] by linarith
next
  case False
  then have x: "1 \<le> x" by simp
  have "gauss_int x + exp (- x) \<le> gauss_int 1 + exp (- 1)"
  proof (rule DERIV_nonpos_imp_nonincreasing [of 1 x "\<lambda>t. gauss_int t + exp (- t)"])
    show "1 \<le> x" by (rule x)
    fix t :: real
    assume t: "1 \<le> t" "t \<le> x"
    have "t \<le> t\<^sup>2" using t by (simp add: power2_eq_square)
    then have "exp (- (t\<^sup>2)) - exp (- t) \<le> 0" by simp
    moreover have "DERIV (\<lambda>t. gauss_int t + exp (- t)) t :> exp (- (t\<^sup>2)) - exp (- t)"
      by (auto intro!: derivative_eq_intros DERIV_gauss_int)
    ultimately show "\<exists>y. DERIV (\<lambda>t. gauss_int t + exp (- t)) t :> y \<and> y \<le> 0" by blast
  qed
  then show ?thesis using exp_gt_zero [of "- x"] by linarith
qed

lemma gauss_int_bdd: "bdd_above (range gauss_int)"
  by (rule bdd_aboveI [of _ "gauss_int 1 + exp (- 1)"]) (auto simp: gauss_int_bound)

lemma gauss_int_less_total: "gauss_int x < gauss_total"
proof -
  have "gauss_int x < gauss_int (x + 1)" by (rule gauss_int_strict_mono) simp
  also have "\<dots> \<le> gauss_total"
    unfolding gauss_total_def by (rule cSUP_upper [OF _ gauss_int_bdd]) simp
  finally show ?thesis .
qed

lemma gauss_total_pos: "0 < gauss_total"
  using gauss_int_less_total [of 0] by (simp add: gauss_int_zero)

lemma gauss_int_approaches_total:
  assumes "c < gauss_total"
  shows "\<exists>M. \<forall>x\<ge>M. c < gauss_int x"
proof -
  from assms obtain M where "c < gauss_int M"
    unfolding gauss_total_def using less_cSUP_iff [OF _ gauss_int_bdd] by auto
  then have "\<forall>x\<ge>M. c < gauss_int x"
    using gauss_int_mono by (meson less_le_trans)
  then show ?thesis ..
qed

subsection \<open>The integral over the half line is \<open>sqrt pi / 2\<close>\<close>

lemma wallis_step_algebra:
  fixes a c s N :: real
  assumes "c * c = 1 - a * a" "0 \<le> N"
  shows "- ((N + 1) * (c * s) * c + - a * (a * s)) / (N + 2) + (N + 1) / (N + 2) * s = a * (a * s)"
proof -
  define X where "X = - ((N + 1) * (c * s) * c + - a * (a * s))"
  have "X + (N + 1) * s = (N + 2) * (a * (a * s))"
    unfolding X_def using assms(1) by algebra
  moreover have "(N + 1) / (N + 2) * s = ((N + 1) * s) / (N + 2)"
    by (rule times_divide_eq_left)
  moreover have "X / (N + 2) + ((N + 1) * s) / (N + 2) = (X + (N + 1) * s) / (N + 2)"
    by (rule add_divide_distrib [symmetric])
  moreover have "N + 2 \<noteq> 0" using assms(2) by simp
  ultimately have "X / (N + 2) + (N + 1) / (N + 2) * s = a * (a * s)"
    by simp
  then show ?thesis unfolding X_def .
qed

lemma DERIV_wallis_int: "DERIV (wallis_int n) x :> sin x ^ n"
proof (induction n x rule: wallis_int.induct)
  case (1 x)
  show ?case by (auto intro!: derivative_eq_intros simp: fun_eq_iff)
next
  case (2 x)
  have "DERIV (\<lambda>x. 1 - cos x) x :> sin x" by (auto intro!: derivative_eq_intros)
  then show ?case by (simp add: wallis_int.simps(2) [abs_def])
next
  case (3 n x)
  have p: "DERIV (\<lambda>x. sin x ^ Suc n) x :> real (Suc n) * (cos x * sin x ^ n)"
    using DERIV_power [OF DERIV_sin [of x], where n = "Suc n"] by simp
  have a: "DERIV (\<lambda>x. sin x ^ Suc n * cos x) x
      :> real (Suc n) * (cos x * sin x ^ n) * cos x + - sin x * sin x ^ Suc n"
    by (rule DERIV_mult [OF p DERIV_cos])
  have "DERIV (\<lambda>x. - (sin x ^ Suc n * cos x) / real (n + 2)
                + real (n + 1) / real (n + 2) * wallis_int n x) x
      :> - (real (Suc n) * (cos x * sin x ^ n) * cos x + - sin x * sin x ^ Suc n) / real (n + 2)
         + real (n + 1) / real (n + 2) * sin x ^ n"
    by (intro DERIV_add DERIV_cdivide DERIV_minus a DERIV_cmult "3.IH")
  moreover have "- (real (Suc n) * (cos x * sin x ^ n) * cos x + - sin x * sin x ^ Suc n) / real (n + 2)
         + real (n + 1) / real (n + 2) * sin x ^ n = sin x ^ Suc (Suc n)"
  proof -
    have c: "cos x * cos x = 1 - sin x * sin x"
      using sin_cos_squared_add [of x] by (simp add: power2_eq_square)
    from wallis_step_algebra [OF c, of "real n" "sin x ^ n"] show ?thesis
      by (simp add: add.commute)
  qed
  ultimately show ?case by (simp add: wallis_int.simps(3) [abs_def])
qed

lemma wallis_int_0: "wallis_int n 0 = 0"
  by (induction n "0::real" rule: wallis_int.induct) simp_all

lemma wallis_0: "wallis 0 = pi / 2" and wallis_1: "wallis (Suc 0) = 1"
  and wallis_Suc_Suc: "wallis (Suc (Suc n)) = real (n + 1) / real (n + 2) * wallis n"
  by (simp_all add: wallis_def)

lemma wallis_pos: "0 < wallis n"
  by (induction n "0::real" rule: wallis_int.induct)
     (simp_all add: wallis_0 wallis_1 wallis_Suc_Suc)

lemma wallis_int_mono:
  assumes "0 \<le> a" "a \<le> b" "b \<le> pi / 2"
  shows "wallis_int n a \<le> wallis_int n b"
proof (rule DERIV_nonneg_imp_nondecreasing [of a b "wallis_int n"])
  show "a \<le> b" by fact
  fix x assume "a \<le> x" "x \<le> b"
  then have "0 \<le> sin x" using assms pi_gt_zero by (intro sin_ge_zero) linarith+
  then have "0 \<le> sin x ^ n" by simp
  with DERIV_wallis_int show "\<exists>y. DERIV (wallis_int n) x :> y \<and> 0 \<le> y" by blast
qed

lemma wallis_int_nonneg:
  assumes "0 \<le> x" "x \<le> pi / 2"
  shows "0 \<le> wallis_int n x"
  using wallis_int_mono [of 0 x n] assms by (simp add: wallis_int_0)

lemma wallis_int_le_wallis:
  assumes "0 \<le> x" "x \<le> pi / 2"
  shows "wallis_int n x \<le> wallis n"
  unfolding wallis_def using assms by (intro wallis_int_mono) simp_all

lemma wallis_antimono: "wallis (Suc n) \<le> wallis n"
proof -
  have "wallis_int n 0 - wallis_int (Suc n) 0 \<le> wallis_int n (pi / 2) - wallis_int (Suc n) (pi / 2)"
  proof (rule DERIV_nonneg_imp_nondecreasing
      [of 0 "pi / 2" "\<lambda>x. wallis_int n x - wallis_int (Suc n) x"])
    show "0 \<le> pi / 2" using pi_gt_zero by simp
    fix x :: real assume x: "0 \<le> x" "x \<le> pi / 2"
    then have s: "0 \<le> sin x" using pi_gt_zero by (intro sin_ge_zero) linarith+
    have "sin x \<le> 1" by simp
    then have "sin x ^ n * sin x \<le> sin x ^ n * 1"
      using s by (intro mult_left_mono) simp_all
    then have "0 \<le> sin x ^ n - sin x ^ Suc n" by (simp add: mult.commute)
    moreover have "DERIV (\<lambda>x. wallis_int n x - wallis_int (Suc n) x) x
        :> sin x ^ n - sin x ^ Suc n"
      by (intro DERIV_diff DERIV_wallis_int)
    ultimately show "\<exists>y. DERIV (\<lambda>x. wallis_int n x - wallis_int (Suc n) x) x :> y \<and> 0 \<le> y"
      by blast
  qed
  then show ?thesis by (simp add: wallis_def wallis_int_0)
qed

lemma wallis_product: "real (n + 1) * wallis n * wallis (Suc n) = pi / 2"
proof (induction n)
  case 0
  show ?case by (simp add: wallis_0 wallis_1)
next
  case (Suc n)
  have "real (Suc n + 1) * wallis (Suc n) * wallis (Suc (Suc n))
      = real (n + 1) * wallis n * wallis (Suc n)"
    by (simp add: wallis_Suc_Suc)
  with Suc show ?case by (simp only:)
qed

lemma wallis_sq_lower: "pi / (2 * real (n + 1)) \<le> (wallis n)\<^sup>2"
proof -
  have "wallis n * wallis (Suc n) \<le> wallis n * wallis n"
    using wallis_antimono [of n] wallis_pos [of n] by (intro mult_left_mono) simp_all
  moreover have "wallis n * wallis (Suc n) = pi / (2 * real (n + 1))"
    using wallis_product [of n] by (simp add: field_simps)
  ultimately show ?thesis by (simp add: power2_eq_square)
qed

lemma wallis_sq_upper: "(wallis (Suc n))\<^sup>2 \<le> pi / (2 * real (n + 1))"
proof -
  have "wallis (Suc n) * wallis (Suc n) \<le> wallis n * wallis (Suc n)"
    using wallis_antimono [of n] wallis_pos [of "Suc n"] by (intro mult_right_mono) simp_all
  moreover have "wallis n * wallis (Suc n) = pi / (2 * real (n + 1))"
    using wallis_product [of n] by (simp add: field_simps)
  ultimately show ?thesis by (simp add: power2_eq_square)
qed

lemma one_minus_le_exp_power:
  fixes u :: real
  assumes "0 \<le> u" "u \<le> 1"
  shows "(1 - u) ^ n \<le> exp (- (real n * u))"
proof -
  have "1 - u \<le> exp (- u)" using exp_ge_add_one_self [of "- u"] by simp
  then have "(1 - u) ^ n \<le> exp (- u) ^ n"
    using assms by (intro power_mono) simp_all
  also have "\<dots> = exp (real n * (- u))" by (rule exp_of_nat_mult [symmetric])
  finally show ?thesis by simp
qed

lemma gauss_lower:
  assumes "0 < n"
  shows "sqrt (real n) * wallis (2 * n + 1) \<le> gauss_int (sqrt (real n))"
proof -
  define q where "q = sqrt (real n)"
  have q: "0 < q" using assms by (simp add: q_def)
  have qq: "q * q = real n" using assms by (simp add: q_def)
  let ?F = "\<lambda>t. - gauss_int (q * cos t) / q - wallis_int (2 * n + 1) t"
  have "?F 0 \<le> ?F (pi / 2)"
  proof (rule DERIV_nonneg_imp_nondecreasing [of 0 "pi / 2" ?F])
    show "0 \<le> pi / 2" using pi_gt_zero by simp
    fix t :: real assume t: "0 \<le> t" "t \<le> pi / 2"
    then have s: "0 \<le> sin t" using pi_gt_zero by (intro sin_ge_zero) linarith+
    have g: "DERIV (\<lambda>t. gauss_int (q * cos t)) t :> exp (- ((q * cos t)\<^sup>2)) * (q * (- sin t))"
      by (rule DERIV_chain2 [OF DERIV_gauss_int DERIV_cmult [OF DERIV_cos]])
    have d: "DERIV ?F t :> - (exp (- ((q * cos t)\<^sup>2)) * (q * (- sin t))) / q - sin t ^ (2 * n + 1)"
      by (intro DERIV_diff DERIV_cdivide DERIV_minus g DERIV_wallis_int)
    have c2: "(q * cos t)\<^sup>2 = real n * (cos t)\<^sup>2"
      by (simp add: power_mult_distrib power2_eq_square qq)
    have s2: "(sin t)\<^sup>2 = 1 - (cos t)\<^sup>2"
      by (rule sin_squared_eq)
    have "(cos t)\<^sup>2 \<le> 1" using s2 zero_le_power2 [of "sin t"] by linarith
    then have "(1 - (cos t)\<^sup>2) ^ n \<le> exp (- (real n * (cos t)\<^sup>2))"
      by (intro one_minus_le_exp_power) simp_all
    then have "sin t ^ (2 * n) \<le> exp (- ((q * cos t)\<^sup>2))"
      by (simp add: power_mult s2 c2)
    then have "sin t ^ (2 * n) * sin t \<le> exp (- ((q * cos t)\<^sup>2)) * sin t"
      using s by (rule mult_right_mono)
    moreover have "- (exp (- ((q * cos t)\<^sup>2)) * (q * (- sin t))) / q - sin t ^ (2 * n + 1)
        = exp (- ((q * cos t)\<^sup>2)) * sin t - sin t ^ (2 * n) * sin t"
      using q by simp
    ultimately have "0 \<le> - (exp (- ((q * cos t)\<^sup>2)) * (q * (- sin t))) / q - sin t ^ (2 * n + 1)"
      by (simp only: diff_ge_0_iff_ge)
    with d show "\<exists>y. DERIV ?F t :> y \<and> 0 \<le> y" by blast
  qed
  then have "wallis (2 * n + 1) \<le> gauss_int q / q"
    by (simp add: wallis_def wallis_int_0 gauss_int_zero)
  then show ?thesis
    using q by (simp add: q_def [symmetric] pos_le_divide_eq mult.commute)
qed

lemma exp_minus_le_inverse_power:
  fixes u :: real
  assumes "0 \<le> u"
  shows "exp (- (real n * u)) \<le> (1 / (1 + u)) ^ n"
proof -
  have "1 + u \<le> exp u" using exp_ge_add_one_self [of u] by simp
  then have "(1 + u) ^ n \<le> exp u ^ n"
    using assms by (intro power_mono) simp_all
  also have "\<dots> = exp (real n * u)" by (rule exp_of_nat_mult [symmetric])
  finally have "(1 + u) ^ n \<le> exp (real n * u)" .
  moreover have "0 < (1 + u) ^ n" using assms by simp
  ultimately have "inverse (exp (real n * u)) \<le> inverse ((1 + u) ^ n)"
    by (rule le_imp_inverse_le)
  then show ?thesis by (simp add: exp_minus power_one_over inverse_eq_divide)
qed

lemma gauss_upper:
  assumes "0 \<le> x"
  shows "gauss_int x \<le> sqrt (real (k + 1)) * wallis (2 * k)"
proof -
  define q where "q = sqrt (real (k + 1))"
  have q: "0 < q" by (simp add: q_def)
  have qq: "q * q = real (k + 1)" by (simp add: q_def)
  let ?G = "\<lambda>x. q * (wallis (2 * k) - wallis_int (2 * k) (pi / 2 - arctan (x / q))) - gauss_int x"
  have "?G 0 \<le> ?G x"
  proof (rule DERIV_nonneg_imp_nondecreasing [of 0 x ?G])
    show "0 \<le> x" by fact
    fix y :: real assume y: "0 \<le> y" "y \<le> x"
    define u where "u = (y / q)\<^sup>2"
    have u: "0 \<le> u" by (simp add: u_def)
    have a: "DERIV (\<lambda>x. pi / 2 - arctan (x / q)) y :> 0 - inverse (1 + (y / q)\<^sup>2) * (1 / q)"
      by (intro DERIV_diff DERIV_const DERIV_chain2 [OF DERIV_arctan] DERIV_cdivide DERIV_ident)
    have w: "DERIV (\<lambda>x. wallis_int (2 * k) (pi / 2 - arctan (x / q))) y
        :> sin (pi / 2 - arctan (y / q)) ^ (2 * k) * (0 - inverse (1 + (y / q)\<^sup>2) * (1 / q))"
      by (rule DERIV_chain2 [OF DERIV_wallis_int a])
    have d: "DERIV ?G y
        :> q * (0 - sin (pi / 2 - arctan (y / q)) ^ (2 * k) * (0 - inverse (1 + (y / q)\<^sup>2) * (1 / q)))
           - exp (- (y\<^sup>2))"
      by (intro DERIV_diff DERIV_cmult DERIV_const w DERIV_gauss_int)
    have "sin (pi / 2 - arctan (y / q)) = cos (arctan (y / q))"
      by (simp add: sin_diff)
    also have "\<dots> = 1 / sqrt (1 + u)" by (simp add: cos_arctan u_def)
    finally have "sin (pi / 2 - arctan (y / q)) ^ (2 * k) = (1 / (1 + u)) ^ k"
      using u by (simp add: power_mult power_divide)
    then have e: "q * (0 - sin (pi / 2 - arctan (y / q)) ^ (2 * k) * (0 - inverse (1 + (y / q)\<^sup>2) * (1 / q)))
        = (1 / (1 + u)) ^ (k + 1)"
      using q by (simp add: u_def [symmetric] inverse_eq_divide)
    have "real (k + 1) * u = y\<^sup>2"
      using q qq by (simp add: u_def power2_eq_square field_simps)
    then have "exp (- (y\<^sup>2)) \<le> (1 / (1 + u)) ^ (k + 1)"
      using exp_minus_le_inverse_power [OF u, of "k + 1"] by simp
    with d e show "\<exists>z. DERIV ?G y :> z \<and> 0 \<le> z"
      by (intro exI [of _ "(1 / (1 + u)) ^ (k + 1) - exp (- (y\<^sup>2))"]) simp
  qed
  then have "gauss_int x \<le> q * (wallis (2 * k) - wallis_int (2 * k) (pi / 2 - arctan (x / q)))"
    by (simp add: wallis_def gauss_int_zero)
  moreover have "0 \<le> wallis_int (2 * k) (pi / 2 - arctan (x / q))"
  proof (rule wallis_int_nonneg)
    have "0 \<le> arctan (x / q)" using assms q by simp
    then show "pi / 2 - arctan (x / q) \<le> pi / 2" by simp
    show "0 \<le> pi / 2 - arctan (x / q)" using arctan_ubound [of "x / q"] by simp
  qed
  then have "q * (wallis (2 * k) - wallis_int (2 * k) (pi / 2 - arctan (x / q)))
      \<le> q * wallis (2 * k)"
    using q by (intro mult_left_mono) simp_all
  ultimately have "gauss_int x \<le> q * wallis (2 * k)"
    by (rule order_trans)
  then show ?thesis by (simp only: q_def)
qed

lemma gauss_total_sq_lower:
  assumes "0 < n"
  shows "real n * pi \<le> 4 * real (n + 1) * gauss_total\<^sup>2"
proof -
  have "sqrt (real n) * wallis (2 * n + 1) \<le> gauss_total"
    using gauss_lower [OF assms] gauss_int_less_total [of "sqrt (real n)"] by simp
  moreover have "0 \<le> sqrt (real n) * wallis (2 * n + 1)"
    using wallis_pos [of "2 * n + 1"] by simp
  ultimately have "(sqrt (real n) * wallis (2 * n + 1))\<^sup>2 \<le> gauss_total\<^sup>2"
    by (rule power_mono)
  then have "real n * (wallis (2 * n + 1))\<^sup>2 \<le> gauss_total\<^sup>2"
    by (simp add: power_mult_distrib)
  moreover have "pi / (2 * real (2 * n + 1 + 1)) \<le> (wallis (2 * n + 1))\<^sup>2"
    by (rule wallis_sq_lower)
  then have "real n * (pi / (2 * real (2 * n + 1 + 1))) \<le> real n * (wallis (2 * n + 1))\<^sup>2"
    by (intro mult_left_mono) simp_all
  ultimately have "real n * (pi / (2 * real (2 * n + 1 + 1))) \<le> gauss_total\<^sup>2" by simp
  then show ?thesis by (simp add: field_simps)
qed

lemma gauss_total_le: "gauss_total \<le> sqrt (real (k + 1)) * wallis (2 * k)"
  unfolding gauss_total_def
proof (rule cSUP_least)
  show "(UNIV :: real set) \<noteq> {}" by simp
  fix x :: real
  show "gauss_int x \<le> sqrt (real (k + 1)) * wallis (2 * k)"
  proof (cases "0 \<le> x")
    case True
    then show ?thesis by (rule gauss_upper)
  next
    case False
    then have "gauss_int x \<le> gauss_int 0" by (intro gauss_int_mono) simp
    moreover have "0 \<le> sqrt (real (k + 1)) * wallis (2 * k)"
      using wallis_pos [of "2 * k"] by simp
    ultimately show ?thesis by (simp add: gauss_int_zero)
  qed
qed

lemma gauss_total_sq_upper:
  assumes "0 < k"
  shows "4 * (real k * gauss_total\<^sup>2) \<le> real k * pi + pi"
proof -
  obtain j where j: "2 * k = Suc j" using assms by (cases "2 * k") simp_all
  have "gauss_total\<^sup>2 \<le> (sqrt (real (k + 1)) * wallis (2 * k))\<^sup>2"
    using gauss_total_le [of k] gauss_total_pos by (intro power_mono) simp_all
  then have a: "gauss_total\<^sup>2 \<le> real (k + 1) * (wallis (2 * k))\<^sup>2"
    by (simp add: power_mult_distrib)
  from wallis_sq_upper [of j] have "(wallis (2 * k))\<^sup>2 \<le> pi / (2 * real (2 * k))"
    by (simp only: j [symmetric] Suc_eq_plus1 [symmetric])
  then have "(wallis (2 * k))\<^sup>2 \<le> pi / (4 * real k)" by simp
  then have "real (k + 1) * (wallis (2 * k))\<^sup>2 \<le> real (k + 1) * (pi / (4 * real k))"
    by (intro mult_left_mono) simp_all
  with a have "gauss_total\<^sup>2 \<le> real (k + 1) * (pi / (4 * real k))" by (rule order_trans)
  then have "4 * real k * gauss_total\<^sup>2 \<le> 4 * real k * (real (k + 1) * (pi / (4 * real k)))"
    by (intro mult_left_mono) simp_all
  also have "\<dots> = real (k + 1) * pi" using assms by simp
  also have "\<dots> = real k * pi + pi" by (simp add: algebra_simps)
  finally show ?thesis by (simp add: mult.assoc)
qed

lemma gauss_total_sq: "gauss_total\<^sup>2 = pi / 4"
proof (rule antisym)
  define G where "G = gauss_total\<^sup>2"
  show "gauss_total\<^sup>2 \<le> pi / 4"
  proof (rule ccontr)
    assume "\<not> gauss_total\<^sup>2 \<le> pi / 4"
    then have e: "0 < G - pi / 4" by (simp add: G_def)
    obtain k :: nat where k: "(pi / 4) / (G - pi / 4) < real k"
      using reals_Archimedean2 by blast
    have "0 < (pi / 4) / (G - pi / 4)" using e pi_gt_zero by simp
    with k have k0: "0 < k" by (cases k) auto
    from k e have "pi / 4 < real k * (G - pi / 4)"
      by (simp only: pos_divide_less_eq)
    then have "pi / 4 < real k * G - real k * pi / 4"
      by (simp add: right_diff_distrib)
    moreover have "4 * (real k * G) \<le> real k * pi + pi"
      unfolding G_def by (rule gauss_total_sq_upper [OF k0])
    ultimately show False by linarith
  qed
  show "pi / 4 \<le> gauss_total\<^sup>2"
  proof (rule ccontr)
    assume "\<not> pi / 4 \<le> gauss_total\<^sup>2"
    then have e: "0 < pi / 4 - G" by (simp add: G_def)
    obtain n :: nat where n: "G / (pi / 4 - G) < real n"
      using reals_Archimedean2 by blast
    have "0 \<le> G / (pi / 4 - G)" using e by (simp add: G_def)
    with n have n0: "0 < n" by (cases n) auto
    from n e have "G < real n * (pi / 4 - G)"
      by (simp only: pos_divide_less_eq)
    then have "G < real n * pi / 4 - real n * G"
      by (simp add: right_diff_distrib)
    moreover have "real n * pi \<le> 4 * (real n * G) + 4 * G"
      using gauss_total_sq_lower [OF n0] by (simp add: G_def algebra_simps)
    ultimately show False by linarith
  qed
qed

lemma gauss_total_eq: "gauss_total = sqrt pi / 2"
proof -
  have "gauss_total = sqrt (gauss_total\<^sup>2)"
    using gauss_total_pos by simp
  also have "\<dots> = sqrt (pi / 4)" by (simp only: gauss_total_sq)
  also have "\<dots> = sqrt pi / 2" by (simp add: real_sqrt_divide)
  finally show ?thesis .
qed

subsection \<open>The error function\<close>

lemma erf_real_zero [simp]: "erf_real 0 = 0"
  by (simp add: erf_real_def gauss_int_zero)

lemma erf_real_odd: "erf_real (- x) = - erf_real x"
  by (simp add: erf_real_def gauss_int_odd)

lemma erf_real_alt: "erf_real x = gauss_int x / gauss_total"
  by (simp add: erf_real_def gauss_total_eq)

lemma erf_real_less_1: "erf_real x < 1"
  using gauss_int_less_total [of x] gauss_total_pos by (simp add: erf_real_alt)

lemma erf_real_greater_m1: "- 1 < erf_real x"
  using erf_real_less_1 [of "- x"] by (simp add: erf_real_odd)

lemma DERIV_erf_real: "DERIV erf_real x :> 2 / sqrt pi * exp (- (x\<^sup>2))"
  unfolding erf_real_def [abs_def]
  by (rule DERIV_cmult [OF DERIV_gauss_int])

lemma erf_real_mono: "x \<le> y \<Longrightarrow> erf_real x \<le> erf_real y"
  using gauss_int_mono [of x y] gauss_total_pos by (simp add: erf_real_alt divide_right_mono)

lemma erf_real_approaches_1:
  assumes "0 < e"
  shows "\<exists>M. \<forall>x\<ge>M. 1 - e < erf_real x"
proof -
  have "(1 - e) * gauss_total < gauss_total"
    using assms gauss_total_pos by simp
  from gauss_int_approaches_total [OF this] obtain M
    where M: "\<forall>x\<ge>M. (1 - e) * gauss_total < gauss_int x" ..
  have "\<forall>x\<ge>M. 1 - e < erf_real x"
    using M gauss_total_pos by (simp add: erf_real_alt pos_less_divide_eq)
  then show ?thesis ..
qed

section \<open>Arithmetic of JavaScript numbers on finite values\<close>

lemma Fin_minus [simp]: "Fin a - Fin b = Fin (a - b)"
  by (simp add: minus_jsnum_def)

lemma cdf_Fin [simp]: "cdf (Fin x) = Fin (cdf_real x)"
  by (simp add: cdf_def cdf_real_def)

lemma cdf_real_symmetric: "cdf_real (- x) = 1 - cdf_real x"
  by (simp add: cdf_real_def erf_real_odd field_simps)

lemma cdf_PInf: "cdf PInf = Fin 1" and cdf_NInf: "cdf NInf = Fin 0" and cdf_NaN: "cdf NaN = NaN"
  by (simp_all add: cdf_def)

lemma pos_cases: "Fin 0 < x \<Longrightarrow> x = PInf \<or> (\<exists>a. 0 < a \<and> x = Fin a)"
  by (cases x) simp_all

section \<open>The boundary at maturity\<close>

text \<open>
  C1. Whenever \<open>T \<le> 0\<close> the price is the intrinsic value, \<open>max(0, S - K)\<close> for a call
  and \<open>max(0, K - S)\<close> for a put (every type other than \<open>'call'\<close>), whatever the rate
  and the volatility are: the branch returns before \<open>d1\<close> and \<open>d2\<close> are computed. On
  finite prices this is the maximum of the reals.
\<close>

theorem price_at_maturity:
  "T \<le> Fin 0 \<Longrightarrow>
     calculateOptionPrice ty S K r T sigma =
       Math_max (Fin 0) (if ty = ''call'' then S - K else K - S)
     \<and> calculateOptionPrice ''call'' (Fin s) (Fin k) r T sigma = Fin (max 0 (s - k))
     \<and> calculateOptionPrice ''put'' (Fin s) (Fin k) r T sigma = Fin (max 0 (k - s))"
  by (simp add: calculateOptionPrice_def)

theorem price_at_maturity_witness:
  "Fin 0 \<le> Fin 0
   \<and> calculateOptionPrice ''call'' (Fin 120) (Fin 100) (Fin (1 / 20)) (Fin 0) (Fin 0) = Fin 20
   \<and> calculateOptionPrice ''put'' (Fin 120) (Fin 100) (Fin (1 / 20)) (Fin 0) (Fin 0) = Fin 0"
  using price_at_maturity [of "Fin 0" "''call''" "Fin 120" "Fin 100" "Fin (1 / 20)" "Fin 0" 120 100]
  by simp

text \<open>
  C3. Whenever \<open>T \<le> 0\<close> the delta is \<open>1\<close> for a call and \<open>-1\<close> for a put when the
  intrinsic value is strictly positive and \<open>0\<close> otherwise, and gamma, theta, vega and
  rho are \<open>0\<close>. On finite prices the intrinsic value is positive exactly when the
  option is in the money.
\<close>

theorem greeks_at_maturity:
  "T \<le> Fin 0 \<Longrightarrow>
     greeks.delta (calculateGreeks ty S K r T sigma) =
       (if Fin 0 < Math_max (Fin 0) (if ty = ''call'' then S - K else K - S)
        then (if ty = ''call'' then Fin 1 else Fin (- 1)) else Fin 0)
     \<and> greeks.gamma (calculateGreeks ty S K r T sigma) = Fin 0
     \<and> greeks.theta (calculateGreeks ty S K r T sigma) = Fin 0
     \<and> greeks.vega (calculateGreeks ty S K r T sigma) = Fin 0
     \<and> greeks.rho (calculateGreeks ty S K r T sigma) = Fin 0
     \<and> greeks.delta (calculateGreeks ''call'' (Fin s) (Fin k) r T sigma) =
         (if k < s then Fin 1 else Fin 0)
     \<and> greeks.delta (calculateGreeks ''put'' (Fin s) (Fin k) r T sigma) =
         (if s < k then Fin (- 1) else Fin 0)"
  by (simp add: calculateGreeks_def Let_def)

theorem greeks_at_maturity_witness:
  "Fin 0 \<le> Fin 0
   \<and> calculateGreeks ''call'' (Fin 120) (Fin 100) (Fin (1 / 20)) (Fin 0) (Fin (1 / 5))
       = \<lparr> greeks.delta = Fin 1, gamma = Fin 0, theta = Fin 0, vega = Fin 0, rho = Fin 0 \<rparr>
   \<and> greeks.delta (calculateGreeks ''put'' (Fin 120) (Fin 100) (Fin (1 / 20)) (Fin 0) (Fin (1 / 5)))
       = Fin 0"
  using greeks_at_maturity [of "Fin 0" "''call''" "Fin 120" "Fin 100" "Fin (1 / 20)" "Fin (1 / 5)" 120 100]
  by simp

section \<open>The distribution function and the gamma\<close>

text \<open>
  C6. The distribution function is \<open>1/2\<close> at \<open>0\<close> and symmetric,
  \<open>cdf (- x) = 1 - cdf x\<close> for every real \<open>x\<close>; the values are finite, and equal in the
  model, so within \<open>1e-9\<close>. \<open>calculateCDF\<close> with mean \<open>0\<close> and standard deviation \<open>1\<close>
  is the same function.
\<close>

theorem cdf_symmetry:
  "cdf (Fin 0) = Fin (1 / 2)
   \<and> cdf (Fin (- x)) = Fin 1 - cdf (Fin x)
   \<and> (\<exists>a b. cdf (Fin (- x)) = Fin a \<and> cdf (Fin x) = Fin b \<and> \<bar>a - (1 - b)\<bar> \<le> 1 / 10 ^ 9)
   \<and> calculateCDF (Fin x) (Fin 0) (Fin 1) = cdf (Fin x)"
  by (simp add: cdf_real_symmetric calculateCDF_def) (simp add: cdf_real_def)

lemma pdf_cases: "pdf x = NaN \<or> (\<exists>p. 0 \<le> p \<and> pdf x = Fin p)"
  by (cases x) (simp_all add: pdf_def Math_PI_def)

lemma gamma_divisor:
  assumes "Fin 0 < S" "Fin 0 < sigma" "Fin 0 < T"
  shows "S * sigma * Math_sqrt T = PInf \<or> (\<exists>q. 0 < q \<and> S * sigma * Math_sqrt T = Fin q)"
  using pos_cases [OF assms(1)] pos_cases [OF assms(2)] pos_cases [OF assms(3)]
  by auto

lemma quotient_not_negative:
  assumes "p = NaN \<or> (\<exists>a. 0 \<le> a \<and> p = Fin a)"
    and "d = PInf \<or> (\<exists>q. 0 < q \<and> d = Fin q)"
  shows "p / d = NaN \<or> Fin 0 \<le> p / d"
  using assms by auto




section \<open>Arguments outside the domain\<close>

lemma d1_sigma_zero:
  assumes "0 < S" "0 < K" "0 < T"
  shows "calculateD1 (Fin S) (Fin K) (Fin r) (Fin T) (Fin 0) =
           (if 0 < ln (S / K) + r * T then PInf
            else if ln (S / K) + r * T < 0 then NInf else NaN)"
  using assms by (simp add: calculateD1_def)

lemma d2_sigma_zero:
  assumes "0 < T"
  shows "calculateD2 PInf (Fin 0) (Fin T) = PInf"
    and "calculateD2 NInf (Fin 0) (Fin T) = NInf"
    and "calculateD2 NaN (Fin 0) (Fin T) = NaN"
  using assms by (simp_all add: calculateD2_def minus_jsnum_def)

lemma d1_negative_quotient:
  assumes "S / K < 0"
  shows "calculateD1 (Fin S) (Fin K) r T sigma = NaN"
proof -
  have "K \<noteq> 0" "S \<noteq> 0" using assms by auto
  then have "Math_log (Fin S / Fin K) = NaN" using assms by simp
  then show ?thesis by (simp add: calculateD1_def)
qed

lemma price_d1_NaN:
  assumes "\<not> T \<le> Fin 0" "calculateD1 S K r T sigma = NaN"
  shows "calculateOptionPrice ty S K r T sigma = NaN"
proof -
  have d2: "calculateD2 NaN sigma T = NaN"
    by (simp add: calculateD2_def minus_jsnum_def)
  have m: "x * NaN = NaN" for x :: jsnum by (cases x) simp_all
  have s: "x - NaN = NaN" for x :: jsnum by (cases x) (simp_all add: minus_jsnum_def)
  show ?thesis
    using assms by (simp add: calculateOptionPrice_def Let_def d2 cdf_NaN m s minus_jsnum_def)
qed




section \<open>The volatility sweeps\<close>

lemma volLoop_step:
  "vol \<le> maxVol + Fin (1 / 10000) \<Longrightarrow>
     volLoop body vol maxVol volStep allData =
       volLoop body (vol + volStep) maxVol volStep
         (allData @ [body (Math_round (vol * Fin 100) / Fin 100)])"
  by (subst volLoop.simps) (simp add: Let_def)

lemma volLoop_stop:
  "\<not> vol \<le> maxVol + Fin (1 / 10000) \<Longrightarrow>
     volLoop body vol maxVol volStep allData = Some allData"
  by (subst volLoop.simps) simp

lemma map_upt_Suc_shift: "map f [0..<Suc k] = f 0 # map (\<lambda>j. f (Suc j)) [0..<k]"
  by (simp only: upt_conv_Cons [of 0 "Suc k"] zero_less_Suc map_Suc_upt [symmetric] list.map)
     (simp add: comp_def)

lemma volLoop_run:
  assumes "\<forall>j<k. v + real j * s \<le> m + 1 / 10000"
    and "\<not> v + real k * s \<le> m + 1 / 10000"
  shows "volLoop body (Fin v) (Fin m) (Fin s) acc =
           Some (acc @ map (\<lambda>j. body (Fin (round2 (v + real j * s)))) [0..<k])"
  using assms
proof (induction k arbitrary: v acc)
  case 0
  then show ?case by (simp add: volLoop_stop)
next
  case (Suc k)
  have le: "Fin v \<le> Fin m + Fin (1 / 10000)" using Suc.prems(1) by auto
  have a: "\<forall>j<k. (v + s) + real j * s \<le> m + 1 / 10000"
  proof (intro allI impI)
    fix j assume "j < k"
    then have "v + real (Suc j) * s \<le> m + 1 / 10000" using Suc.prems(1) by auto
    then show "(v + s) + real j * s \<le> m + 1 / 10000" by (simp add: algebra_simps)
  qed
  have b: "\<not> (v + s) + real k * s \<le> m + 1 / 10000"
    using Suc.prems(2) by (simp add: algebra_simps)
  have r: "Math_round (Fin v * Fin 100) / Fin 100 = Fin (round2 v)"
    by (simp add: round2_def)
  have sh: "(\<lambda>j. body (Fin (round2 (v + s + real j * s))))
      = (\<lambda>j. body (Fin (round2 (v + real (Suc j) * s))))"
    by (rule ext) (simp add: algebra_simps)
  show ?case
    by (subst volLoop_step [OF le])
       (simp add: round2_def [symmetric] Suc.IH [OF a b] map_upt_Suc_shift [of _ k] sh del: upt_Suc)
qed

lemma volLoop_grid:
  assumes "1 / 10000 < s"
  shows "volLoop body (Fin v) (Fin (v + real n * s)) (Fin s) [] =
           Some (map (\<lambda>j. body (Fin (round2 (v + real j * s)))) [0..<Suc n])"
proof -
  have "\<forall>j<Suc n. v + real j * s \<le> v + real n * s + 1 / 10000"
  proof (intro allI impI)
    fix j assume "j < Suc n"
    then have "real j \<le> real n" by simp
    then have "real j * s \<le> real n * s" using assms by (simp add: mult_right_mono)
    then show "v + real j * s \<le> v + real n * s + 1 / 10000" by simp
  qed
  moreover have "\<not> v + real (Suc n) * s \<le> v + real n * s + 1 / 10000"
    using assms by (simp add: algebra_simps)
  ultimately show ?thesis
    using volLoop_run [of "Suc n" v s "v + real n * s" body "[]"] by simp
qed

lemma round2_percent:
  "round2 (real a / 100 + real j * (real b / 100)) = real (a + j * b) / 100"
proof -
  have "(real a / 100 + real j * (real b / 100)) * 100 + 1 / 2 = real (a + j * b) + 1 / 2"
    by (simp add: algebra_simps)
  moreover have "\<lfloor>real (a + j * b) + 1 / 2\<rfloor> = int (a + j * b)"
    by (simp add: floor_eq_iff)
  ultimately show ?thesis by (simp add: round2_def)
qed

lemma volLoop_percent:
  assumes "1 \<le> b"
  shows "volLoop body (Fin (real a / 100)) (Fin (real (a + n * b) / 100)) (Fin (real b / 100)) []
         = Some (map (\<lambda>k. body (Fin (real (a + k * b) / 100))) [0..<n + 1])"
proof -
  have s: "1 / 10000 < real b / 100" using assms by simp
  have m: "real (a + n * b) / 100 = real a / 100 + real n * (real b / 100)"
    by (simp add: field_simps)
  note g = volLoop_grid [OF s, of body "real a / 100" n]
  show ?thesis
    unfolding m g round2_percent by simp
qed

text \<open>
  The loop over the prices returns when the step is finite and positive.
\<close>

lemma priceLoop_returns:
  assumes "0 < s"
  shows "\<exists>prices. priceLoop (Fin p) (Fin m) (Fin s) acc = Some prices"
proof -
  obtain n where "m - p < real n * s"
    using ex_less_of_nat_mult [OF assms] by blast
  then show ?thesis
  proof (induction n arbitrary: p acc)
    case 0
    then have "\<not> Fin p \<le> Fin m" by simp
    then show ?case by (subst priceLoop.simps) simp
  next
    case (Suc n)
    show ?case
    proof (cases "p \<le> m")
      case True
      have "m - (p + s) < real n * s" using Suc.prems by (simp add: algebra_simps)
      from Suc.IH [OF this] obtain prices
        where "priceLoop (Fin (p + s)) (Fin m) (Fin s) (acc @ [Fin p]) = Some prices"
        by blast
      then show ?thesis using True by (subst priceLoop.simps) simp
    next
      case False
      then show ?thesis by (subst priceLoop.simps) simp
    qed
  qed
qed

lemma price_axis_returns:
  assumes "0 < K" "0 < rng" "1 < points"
  shows "\<exists>prices. priceLoop (Fin K * (Fin 1 - Fin rng)) (Fin K * (Fin 1 + Fin rng))
           ((Fin K * (Fin 1 + Fin rng) - Fin K * (Fin 1 - Fin rng)) / (Fin points - Fin 1)) []
         = Some prices"
proof -
  have "0 < (K * (1 + rng) - K * (1 - rng)) / (points - 1)"
    using assms by (simp add: algebra_simps)
  from priceLoop_returns [OF this] show ?thesis
    using assms by simp
qed



section \<open>The simulated paths\<close>

lemma pathLoop_step:
  "t \<le> timeSteps \<Longrightarrow>
     pathLoop drift diffusion dt sqrtDt timeSteps t currentValue seed path =
       (let time = t * dt;
            (z, seed1) = random seed;
            randomComponent = diffusion * currentValue * sqrtDt * z;
            driftComponent = drift * currentValue * dt;
            currentValue1 = currentValue + driftComponent + randomComponent
        in pathLoop drift diffusion dt sqrtDt timeSteps (t + Fin 1) currentValue1 seed1
             (path @ [\<lparr> time = time, value' = currentValue1 \<rparr>]))"
  by (subst pathLoop.simps) simp

lemma pathLoop_stop:
  "\<not> t \<le> timeSteps \<Longrightarrow>
     pathLoop drift diffusion dt sqrtDt timeSteps t currentValue seed path = Some path"
  by (subst pathLoop.simps) simp

lemma pathLoop_returns:
  "\<exists>rest. pathLoop drift diffusion dt sqrtDt (Fin (real n)) (Fin (real t)) currentValue seed path
       = Some (path @ rest) \<and> length rest = n + 1 - t"
proof (induction "n + 1 - t" arbitrary: t currentValue seed path)
  case 0
  then have "\<not> Fin (real t) \<le> Fin (real n)" by simp
  then show ?case using 0 by (simp add: pathLoop_stop)
next
  case (Suc m)
  then have le: "Fin (real t) \<le> Fin (real n)" by simp
  obtain z seed1 where r: "random seed = (z, seed1)" by (cases "random seed")
  have m: "m = n + 1 - Suc t" using Suc.hyps(2) by simp
  have t1: "Fin (real t) + Fin 1 = Fin (real (Suc t))" by simp
  define cv where "cv = currentValue + drift * currentValue * dt + diffusion * currentValue * sqrtDt * z"
  define p where "p = path @ [\<lparr> time = Fin (real t) * dt, value' = cv \<rparr>]"
  have step: "pathLoop drift diffusion dt sqrtDt (Fin (real n)) (Fin (real t)) currentValue seed path
      = pathLoop drift diffusion dt sqrtDt (Fin (real n)) (Fin (real (Suc t))) cv seed1 p"
    by (subst pathLoop_step [OF le]) (simp only: Let_def r prod.case t1 cv_def p_def)
  from Suc.hyps(1) [OF m, of cv seed1 p] obtain rest
    where rest: "pathLoop drift diffusion dt sqrtDt (Fin (real n)) (Fin (real (Suc t))) cv seed1 p
       = Some (p @ rest)" "length rest = n + 1 - Suc t" by blast
  have "pathLoop drift diffusion dt sqrtDt (Fin (real n)) (Fin (real t)) currentValue seed path
      = Some (path @ (\<lparr> time = Fin (real t) * dt, value' = cv \<rparr> # rest))"
    using step rest(1) by (simp add: p_def)
  moreover have "length (\<lparr> time = Fin (real t) * dt, value' = cv \<rparr> # rest) = n + 1 - t"
    using rest(2) Suc.hyps(2) by simp
  ultimately show ?case by blast
qed

text \<open>
  C8. \<open>generatePath\<close> reads nothing but its six arguments: the seed is a parameter, the
  generator changes only that local variable, and no clock or global state is read. So
  the results \<open>r1\<close> and \<open>r2\<close> of two calls with the same arguments are the same: both
  calls return or neither does, and two returned paths have the same length, the same
  times and the same values at every step. For a natural number \<open>n\<close> of steps the call
  returns, with a path of \<open>n + 1\<close> points.
\<close>

theorem generatePath_deterministic:
  "generatePath drift diffusion timeHorizon timeSteps initialValue seed = r1 \<Longrightarrow>
   generatePath drift diffusion timeHorizon timeSteps initialValue seed = r2 \<Longrightarrow>
     r1 = r2
     \<and> (\<forall>path1 path2. r1 = Some path1 \<and> r2 = Some path2 \<longrightarrow>
           length path1 = length path2
           \<and> (\<forall>i<length path1. time (path1 ! i) = time (path2 ! i)
                 \<and> value' (path1 ! i) = value' (path2 ! i)))
     \<and> (\<forall>n. timeSteps = Fin (real n) \<longrightarrow> (\<exists>path. r1 = Some path \<and> length path = n + 1))"
proof -
  assume r: "generatePath drift diffusion timeHorizon timeSteps initialValue seed = r1"
    "generatePath drift diffusion timeHorizon timeSteps initialValue seed = r2"
  have "\<exists>path. generatePath drift diffusion timeHorizon (Fin (real n)) initialValue seed = Some path
              \<and> length path = n + 1" for n
  proof -
    obtain rest where
      "pathLoop drift diffusion (timeHorizon / Fin (real n)) (Math_sqrt (timeHorizon / Fin (real n)))
         (Fin (real n)) (Fin (real 1)) initialValue seed [\<lparr> time = Fin 0, value' = initialValue \<rparr>]
       = Some ([\<lparr> time = Fin 0, value' = initialValue \<rparr>] @ rest)"
      "length rest = n + 1 - 1"
      using pathLoop_returns by blast
    then show ?thesis by (simp add: generatePath_def Let_def)
  qed
  with r show ?thesis by auto
qed

theorem generatePath_deterministic_witness:
  "(\<exists>path. generatePath (Fin (1 / 20)) (Fin (1 / 5)) (Fin 1) (Fin (real 3)) (Fin 100) (Fin 42)
         = Some path \<and> length path = 3 + 1)"
  using generatePath_deterministic [OF refl refl,
      of "Fin (1 / 20)" "Fin (1 / 5)" "Fin 1" "Fin (real 3)" "Fin 100" "Fin 42"]
  by blast

lemma lcg_zero: "js_rem (Fin 22643 * Fin 9301 + Fin 49297) (Fin 233280) = Fin 0"
  by (simp add: trunc_def)

lemma cos_fifth_pos: "0 < cos (2 * pi * (1 / 10))"
proof (rule cos_gt_zero_pi)
  show "- (pi / 2) < 2 * pi * (1 / 10)" using pi_gt_zero by linarith
  show "2 * pi * (1 / 10) < pi / 2" using pi_gt_zero by linarith
qed

lemma random_22643: "random (Fin 22643) = (PInf, Fin 0)"
  using cos_fifth_pos by (simp add: random_def lcg_zero Let_def trunc_def Math_PI_def)

lemma not_finite_step:
  assumes "0 < d" "0 < v"
  shows "\<not> isFinite (Fin v + Fin a * Fin v * Fin b + Fin d * Fin v * Math_sqrt (Fin x) * PInf)"
  using assms by (cases "0 < x") (auto simp: not_less)

text \<open>
  C10. The seed \<open>22643\<close> makes the first update of the generator \<open>0\<close>, since
  \<open>22643 * 9301 + 49297 = 903 * 233280\<close>. Then \<open>u1 = 0\<close>, \<open>Math.log(0)\<close> is \<open>-Infinity\<close>
  and the sample is \<open>+Infinity\<close>; for every finite drift and time horizon, every
  positive diffusion and initial value and every number \<open>n \<ge> 1\<close> of steps,
  \<open>generatePath\<close> returns a path of \<open>n + 1\<close> points whose second value is not finite.
\<close>

theorem generatePath_not_finite:
  "0 < diffusion \<Longrightarrow> 0 < initialValue \<Longrightarrow> 1 \<le> n \<Longrightarrow>
     js_rem (Fin 22643 * Fin 9301 + Fin 49297) (Fin 233280) = Fin 0
     \<and> Math_sqrt (Fin (- 2) * Math_log (Fin 0)) = PInf
     \<and> random (Fin 22643) = (PInf, Fin 0)
     \<and> (\<exists>path. generatePath (Fin drift) (Fin diffusion) (Fin timeHorizon) (Fin (real n))
                  (Fin initialValue) (Fin 22643) = Some path
           \<and> length path = n + 1
           \<and> \<not> isFinite (value' (path ! 1)))"
proof -
  assume pos: "0 < diffusion" "0 < initialValue" and n: "1 \<le> n"
  define dt where "dt = timeHorizon / real n"
  define cv where "cv = Fin initialValue + Fin drift * Fin initialValue * Fin dt
      + Fin diffusion * Fin initialValue * Math_sqrt (Fin dt) * PInf"
  define p0 where "p0 = \<lparr> time = Fin 0, value' = Fin initialValue \<rparr>"
  define p1 where "p1 = \<lparr> time = Fin 1 * Fin dt, value' = cv \<rparr>"
  have dt: "Fin timeHorizon / Fin (real n) = Fin dt"
    using n by (simp add: dt_def)
  have le: "Fin 1 \<le> Fin (real n)" using n by simp
  have "generatePath (Fin drift) (Fin diffusion) (Fin timeHorizon) (Fin (real n))
          (Fin initialValue) (Fin 22643)
        = pathLoop (Fin drift) (Fin diffusion) (Fin dt) (Math_sqrt (Fin dt)) (Fin (real n))
            (Fin (real 2)) cv (Fin 0) ([p0] @ [p1])"
    unfolding generatePath_def Let_def dt
    by (subst pathLoop_step [OF le])
       (simp only: Let_def random_22643 prod.case cv_def p0_def p1_def, simp)
  moreover obtain rest where
    "pathLoop (Fin drift) (Fin diffusion) (Fin dt) (Math_sqrt (Fin dt)) (Fin (real n))
       (Fin (real 2)) cv (Fin 0) ([p0] @ [p1]) = Some (([p0] @ [p1]) @ rest)"
    "length rest = n + 1 - 2"
    using pathLoop_returns by blast
  ultimately have run: "generatePath (Fin drift) (Fin diffusion) (Fin timeHorizon) (Fin (real n))
          (Fin initialValue) (Fin 22643) = Some (p0 # p1 # rest)"
    and len: "length (p0 # p1 # rest) = n + 1"
    using n by simp_all
  have "\<not> isFinite (value' ((p0 # p1 # rest) ! 1))"
    using not_finite_step [OF pos] by (simp add: p1_def cv_def)
  with run len have "\<exists>path. generatePath (Fin drift) (Fin diffusion) (Fin timeHorizon) (Fin (real n))
                  (Fin initialValue) (Fin 22643) = Some path
           \<and> length path = n + 1
           \<and> \<not> isFinite (value' (path ! 1))"
    by blast
  moreover have "Math_sqrt (Fin (- 2) * Math_log (Fin 0)) = PInf" by simp
  ultimately show ?thesis using lcg_zero random_22643 by blast
qed

theorem generatePath_not_finite_witness:
  "(0::real) < 1 / 5 \<and> (0::real) < 100 \<and> (1::nat) \<le> 252
   \<and> (\<exists>path. generatePath (Fin (1 / 20)) (Fin (1 / 5)) (Fin 1) (Fin (real 252))
                  (Fin 100) (Fin 22643) = Some path
           \<and> length path = 252 + 1
           \<and> \<not> isFinite (value' (path ! 1)))"
  using generatePath_not_finite [of "1 / 5" 100 252 "1 / 20" 1] by simp

end
